theory Spec2Isabelle
  imports Complex_Main "HOL-Library.Multiset" "HOL-Library.Char_ord"
begin

section \<open>GlassPass: the password generator of \<open>src/js/app.js\<close>\<close>

text \<open>
  The development embeds the algorithmic core of \<open>app.js\<close>:
  \<open>getRandomChar\<close>, \<open>shuffleArray\<close>, \<open>generateSecurePassword\<close> and
  \<open>evaluatePasswordStrength\<close>.

  Conventions of the embedding.
  \<^item> A JavaScript string is a \<open>string\<close>; a \<open>char\<close> stands for one UTF-16 code unit.
    All four character sets are ASCII, and the regular expressions of the strength
    evaluation only separate the ranges \<open>a-z\<close>, \<open>A-Z\<close>, \<open>0-9\<close> from everything else.
  \<^item> An array of one-character strings is a \<open>string list\<close>: \<open>charAt\<close> yields the
    empty string when the index is out of range, so the elements stay strings, and
    \<open>join('')\<close> is \<open>concat\<close>. Arrays are unbounded lists.
  \<^item> \<open>Math.random()\<close> is an external source of numbers. It is a parameter \<open>rnd\<close>,
    the sequence of values the successive calls return, and every function that draws
    threads the number \<open>k\<close> of values consumed so far. The values are IEEE 754 doubles,
    written as dyadic fractions; the contract of \<open>Math.random\<close> (a double in the half-open
    unit interval) is the predicate \<open>unit_interval\<close>.
  \<^item> The product \<open>Math.random() * n\<close> is the double product: the exact product rounded
    to 53 significant bits, ties to even. \<open>Math.floor\<close> is applied to the rounded product.
  \<^item> The numeric setting \<open>length\<close>, read from the slider with \<open>parseInt\<close>, is an \<open>int\<close>.
  \<^item> The \<open>throw new Error(...)\<close> of the generator is the value \<open>Inl InvalidConfiguration\<close>.
\<close>

subsection \<open>Constants (lines 10-15)\<close>

definition CHAR_SETS_lowercase :: string where
  "CHAR_SETS_lowercase = ''abcdefghijklmnopqrstuvwxyz''"

definition CHAR_SETS_uppercase :: string where
  "CHAR_SETS_uppercase = ''ABCDEFGHIJKLMNOPQRSTUVWXYZ''"

definition CHAR_SETS_numbers :: string where
  "CHAR_SETS_numbers = ''0123456789''"

definition CHAR_SETS_symbols :: string where
  "CHAR_SETS_symbols = ''!@#$%^&*()_+-=[]{}|;:,.<>?''"

subsection \<open>Application state (lines 40-46)\<close>

record passwordSettings =
  length_ps :: int
  includeUppercase :: bool
  includeLowercase :: bool
  includeNumbers :: bool
  includeSymbols :: bool

subsection \<open>The random source\<close>

text \<open>
  A pair \<open>(m, p)\<close> stands for the number \<open>m / 2 ^ p\<close>. The doubles of the half-open unit
  interval are the numbers \<open>m / 2 ^ p\<close> with a significand \<open>m\<close> of at most 53 bits and
  \<open>53 \<le> p \<le> 1074\<close> (1074 is the exponent of the smallest subnormal double).
\<close>

type_synonym dyadic = "int \<times> nat"

definition dyadic_value :: "dyadic \<Rightarrow> real" where
  "dyadic_value d = real_of_int (fst d) / 2 ^ snd d"

definition is_double01 :: "dyadic \<Rightarrow> bool" where
  "is_double01 d \<longleftrightarrow> 0 \<le> fst d \<and> fst d < 2 ^ 53 \<and> 53 \<le> snd d \<and> snd d \<le> 1074"

type_synonym random_source = "nat \<Rightarrow> dyadic"

definition unit_interval :: "random_source \<Rightarrow> bool" where
  "unit_interval rnd \<longleftrightarrow> (\<forall>k. is_double01 (rnd k))"

subsection \<open>The arithmetic of \<open>Math.floor(Math.random() * n)\<close> (lines 104 and 115)\<close>

text \<open>
  The second factor \<open>n\<close> is a string length or a loop index plus one: a non-negative
  integer below \<open>2 ^ 32\<close>, exact as a double. The exact product of \<open>m / 2 ^ p\<close> and \<open>n\<close> is
  \<open>N / 2 ^ p\<close> with \<open>N = m * n\<close>. When \<open>N\<close> has more than 53 bits, its lowest
  \<open>s = bit_length N - 53\<close> bits are rounded away, to the nearest multiple of \<open>2 ^ s\<close> and
  to the even one of two nearest; otherwise the product is exact.
\<close>

function bit_length :: "int \<Rightarrow> nat" where
  "bit_length n = (if n \<le> 0 then 0 else Suc (bit_length (n div 2)))"
  by pat_completeness auto
termination
  by (relation "measure nat") auto

declare bit_length.simps [simp del]

definition round_half_even :: "int \<Rightarrow> nat \<Rightarrow> int" where
  "round_half_even N s =
     (let q = N div 2 ^ s; r = N mod 2 ^ s
      in if 2 ^ s < 2 * r \<or> (2 * r = 2 ^ s \<and> odd q) then q + 1 else q)"

definition times_double :: "dyadic \<Rightarrow> int \<Rightarrow> dyadic" where
  "times_double d n =
     (case d of (m, p) \<Rightarrow>
        (let N = m * n; s = bit_length N - 53
         in (round_half_even N s * 2 ^ s, p)))"

definition Math_floor :: "dyadic \<Rightarrow> int" where
  "Math_floor d = fst d div 2 ^ snd d"

subsection \<open>\<open>getRandomChar\<close> (lines 103-105)\<close>

definition charAt :: "string \<Rightarrow> int \<Rightarrow> string" where
  "charAt s i = (if 0 \<le> i \<and> i < int (length s) then [s ! nat i] else [])"

definition getRandomChar :: "random_source \<Rightarrow> string \<Rightarrow> nat \<Rightarrow> string \<times> nat" where
  "getRandomChar rnd chars k =
     (charAt chars (Math_floor (times_double (rnd k) (int (length chars)))), Suc k)"

subsection \<open>\<open>shuffleArray\<close> (lines 112-119)\<close>

text \<open>
  The destructuring assignment \<open>[a[i], a[j]] = [a[j], a[i]]\<close> reads both elements
  first and then writes position \<open>i\<close>, then position \<open>j\<close>.
\<close>

definition swap :: "'a list \<Rightarrow> nat \<Rightarrow> nat \<Rightarrow> 'a list" where
  "swap a i j = a[i := a ! j, j := a ! i]"

function shuffle_loop :: "random_source \<Rightarrow> int \<Rightarrow> 'a list \<Rightarrow> nat \<Rightarrow> 'a list \<times> nat" where
  "shuffle_loop rnd i shuffled k =
     (if i > 0 then
        (let j = Math_floor (times_double (rnd k) (i + 1))
         in shuffle_loop rnd (i - 1) (swap shuffled (nat i) (nat j)) (Suc k))
      else (shuffled, k))"
  by pat_completeness auto
termination
  by (relation "measure (\<lambda>(rnd, i, shuffled, k). nat i)") auto

declare shuffle_loop.simps [simp del]

definition shuffleArray :: "random_source \<Rightarrow> 'a list \<Rightarrow> nat \<Rightarrow> 'a list \<times> nat" where
  "shuffleArray rnd array k = shuffle_loop rnd (int (length array) - 1) array k"

subsection \<open>\<open>shuffleArray\<close> on a store of arrays\<close>

text \<open>
  JavaScript arrays are objects: \<open>shuffleArray\<close> receives a reference, and the swap of
  line 116 writes through a reference. To state what the function does to its argument,
  the same code is embedded over an explicit store: a list of arrays, an array's address
  being its position. Line 113, \<open>const shuffled = [...array]\<close>, allocates a new array with
  the elements of \<open>array\<close>; the loop writes to the array at address \<open>shuffled\<close>; line 118
  returns that address.
\<close>

type_synonym 'a heap = "'a list list"

definition copy_array :: "'a heap \<Rightarrow> nat \<Rightarrow> 'a heap \<times> nat" where
  "copy_array h array = (h @ [h ! array], length h)"

function shuffle_loop_heap ::
  "random_source \<Rightarrow> nat \<Rightarrow> int \<Rightarrow> 'a heap \<Rightarrow> nat \<Rightarrow> 'a heap \<times> nat" where
  "shuffle_loop_heap rnd shuffled i h k =
     (if i > 0 then
        (let j = Math_floor (times_double (rnd k) (i + 1))
         in shuffle_loop_heap rnd shuffled (i - 1)
              (h[shuffled := swap (h ! shuffled) (nat i) (nat j)]) (Suc k))
      else (h, k))"
  by pat_completeness auto
termination
  by (relation "measure (\<lambda>(rnd, shuffled, i, h, k). nat i)") auto

declare shuffle_loop_heap.simps [simp del]

definition shuffleArray_heap ::
  "random_source \<Rightarrow> nat \<Rightarrow> 'a heap \<Rightarrow> nat \<Rightarrow> nat \<times> 'a heap \<times> nat" where
  "shuffleArray_heap rnd array h k =
     (case copy_array h array of (h1, shuffled) \<Rightarrow>
        (case shuffle_loop_heap rnd shuffled (int (length (h1 ! shuffled)) - 1) h1 k of
           (h2, k') \<Rightarrow> (shuffled, h2, k')))"

subsection \<open>\<open>generateSecurePassword\<close> (lines 56-96)\<close>

datatype error = InvalidConfiguration

text \<open>
  One of the four blocks \<open>if (includeX) { availableChars += X; guaranteedChars.push(getRandomChar(X)); }\<close>
  acting on the triple of \<open>availableChars\<close>, \<open>guaranteedChars\<close> and the draw counter.
\<close>

definition include_class ::
  "random_source \<Rightarrow> bool \<Rightarrow> string \<Rightarrow> string \<times> string list \<times> nat \<Rightarrow> string \<times> string list \<times> nat" where
  "include_class rnd flag cs st =
     (case st of (availableChars, guaranteedChars, k) \<Rightarrow>
        if flag then
          (case getRandomChar rnd cs k of (c, k') \<Rightarrow>
             (availableChars @ cs, guaranteedChars @ [c], k'))
        else (availableChars, guaranteedChars, k))"

text \<open>Lines 60-81: the four blocks in the order of the source.\<close>

definition collect_classes ::
  "random_source \<Rightarrow> passwordSettings \<Rightarrow> nat \<Rightarrow> string \<times> string list \<times> nat" where
  "collect_classes rnd ps k =
     include_class rnd (includeSymbols ps) CHAR_SETS_symbols
       (include_class rnd (includeNumbers ps) CHAR_SETS_numbers
         (include_class rnd (includeUppercase ps) CHAR_SETS_uppercase
           (include_class rnd (includeLowercase ps) CHAR_SETS_lowercase ([], [], k))))"

text \<open>
  \<open>Array.from({ length: n }, () => getRandomChar(chars))\<close>: the callback runs for the
  indices \<open>0, ..., n - 1\<close> in this order. \<open>Array.from\<close> reads the length with
  \<open>ToLength\<close>, which turns a negative number into \<open>0\<close>; the caller passes \<open>nat n\<close>.
\<close>

fun array_from :: "random_source \<Rightarrow> string \<Rightarrow> nat \<Rightarrow> nat \<Rightarrow> string list \<times> nat" where
  "array_from rnd chars 0 k = ([], k)"
| "array_from rnd chars (Suc n) k =
     (case getRandomChar rnd chars k of (c, k') \<Rightarrow>
        (case array_from rnd chars n k' of (cs, k'') \<Rightarrow> (c # cs, k'')))"

text \<open>Lines 60-92: the array \<open>password\<close> before it is shuffled, or the error of line 85.\<close>

definition password_array ::
  "random_source \<Rightarrow> passwordSettings \<Rightarrow> nat \<Rightarrow> (error + string list) \<times> nat" where
  "password_array rnd ps k0 =
     (case collect_classes rnd ps k0 of (availableChars, guaranteedChars, k) \<Rightarrow>
        if length availableChars = 0 then (Inl InvalidConfiguration, k)
        else
          (let remainingLength = length_ps ps - int (length guaranteedChars)
           in case array_from rnd availableChars (nat remainingLength) k of (filled, k') \<Rightarrow>
                (Inr (guaranteedChars @ filled), k')))"

definition generateSecurePassword ::
  "random_source \<Rightarrow> passwordSettings \<Rightarrow> nat \<Rightarrow> (error + string) \<times> nat" where
  "generateSecurePassword rnd ps k0 =
     (case password_array rnd ps k0 of
        (Inl e, k) \<Rightarrow> (Inl e, k)
      | (Inr password, k) \<Rightarrow>
          (case shuffleArray rnd password k of (shuffled, k') \<Rightarrow> (Inr (concat shuffled), k')))"

subsection \<open>\<open>validateSettings\<close> (lines 138-141)\<close>

definition validateSettings :: "passwordSettings \<Rightarrow> bool" where
  "validateSettings ps \<longleftrightarrow>
     includeUppercase ps \<or> includeLowercase ps \<or> includeNumbers ps \<or> includeSymbols ps"

subsection \<open>\<open>evaluatePasswordStrength\<close> (lines 435-458)\<close>

record strengthReport =
  strength :: string
  score :: int
  feedback :: "string list"

text \<open>\<open>/[a-z]/.test(s)\<close> and its siblings: some code unit of \<open>s\<close> lies in the class.\<close>

definition lower_az :: "char \<Rightarrow> bool" where
  "lower_az c \<longleftrightarrow> CHR ''a'' \<le> c \<and> c \<le> CHR ''z''"

definition upper_AZ :: "char \<Rightarrow> bool" where
  "upper_AZ c \<longleftrightarrow> CHR ''A'' \<le> c \<and> c \<le> CHR ''Z''"

definition digit_09 :: "char \<Rightarrow> bool" where
  "digit_09 c \<longleftrightarrow> CHR ''0'' \<le> c \<and> c \<le> CHR ''9''"

definition not_alnum :: "char \<Rightarrow> bool" where
  "not_alnum c \<longleftrightarrow> \<not> (lower_az c \<or> upper_AZ c \<or> digit_09 c)"

definition regex_test :: "(char \<Rightarrow> bool) \<Rightarrow> string \<Rightarrow> bool" where
  "regex_test cls s = list_ex cls s"

text \<open>The labels; \<open>CHR 0xE9\<close> is the e with acute accent.\<close>

definition Muy_fuerte :: string where "Muy_fuerte = ''Muy fuerte''"
definition Fuerte :: string where "Fuerte = ''Fuerte''"
definition Media :: string where "Media = ''Media''"
definition Debil :: string where "Debil = [CHR ''D'', CHR 0xE9, CHR ''b'', CHR ''i'', CHR ''l'']"

definition evaluatePasswordStrength :: "string \<Rightarrow> strengthReport" where
  "evaluatePasswordStrength password =
     (let score = (0::int);
          feedback = ([] :: string list);
          (score, feedback) =
             (if int (length password) \<ge> 12 then (score + 2, feedback)
              else if int (length password) \<ge> 8 then (score + 1, feedback)
              else (score, feedback @ [''Usar al menos 8 caracteres'']));
          score = (if regex_test lower_az password then score + 1 else score);
          score = (if regex_test upper_AZ password then score + 1 else score);
          score = (if regex_test digit_09 password then score + 1 else score);
          score = (if regex_test not_alnum password then score + 1 else score);
          strength =
             (if score \<ge> 6 then Muy_fuerte
              else if score \<ge> 4 then Fuerte
              else if score \<ge> 2 then Media
              else Debil)
      in \<lparr>strength = strength, score = score, feedback = feedback\<rparr>)"

section \<open>Notions of the specification\<close>

text \<open>
  The enabled character classes in the canonical order lowercase, uppercase, numbers,
  symbols. Their number is \<open>length (enabled_classes ps)\<close>, the pool they form is
  \<open>concat (enabled_classes ps)\<close>.
\<close>

definition enabled_classes :: "passwordSettings \<Rightarrow> string list" where
  "enabled_classes ps =
     (if includeLowercase ps then [CHAR_SETS_lowercase] else []) @
     (if includeUppercase ps then [CHAR_SETS_uppercase] else []) @
     (if includeNumbers ps then [CHAR_SETS_numbers] else []) @
     (if includeSymbols ps then [CHAR_SETS_symbols] else [])"

text \<open>A one-character string whose character belongs to a class.\<close>

definition one_of :: "string \<Rightarrow> string \<Rightarrow> bool" where
  "one_of s cls \<longleftrightarrow> (\<exists>c \<in> set cls. s = [c])"

text \<open>The number of fill positions: the requested length less the guaranteed characters, at least zero.\<close>

definition remaining :: "passwordSettings \<Rightarrow> nat" where
  "remaining ps = nat (length_ps ps - int (length (enabled_classes ps)))"

text \<open>A valid configuration: at least one class enabled and a length of at least one.\<close>

definition valid_config :: "passwordSettings \<Rightarrow> bool" where
  "valid_config ps \<longleftrightarrow> validateSettings ps \<and> 1 \<le> length_ps ps"

subsection \<open>The scoring rule of the specification\<close>

definition length_advice :: string where
  "length_advice = ''Usar al menos 8 caracteres''"

definition length_points :: "string \<Rightarrow> int" where
  "length_points s = (if 12 \<le> length s then 2 else if 8 \<le> length s then 1 else 0)"

definition contains :: "(char \<Rightarrow> bool) \<Rightarrow> string \<Rightarrow> bool" where
  "contains cls s \<longleftrightarrow> (\<exists>c \<in> set s. cls c)"

definition class_points :: "(char \<Rightarrow> bool) \<Rightarrow> string \<Rightarrow> int" where
  "class_points cls s = (if contains cls s then 1 else 0)"

definition spec_score :: "string \<Rightarrow> int" where
  "spec_score s = length_points s + class_points lower_az s + class_points upper_AZ s
     + class_points digit_09 s + class_points not_alnum s"

definition spec_label :: "int \<Rightarrow> string" where
  "spec_label n = (if 6 \<le> n then Muy_fuerte else if 4 \<le> n then Fuerte
                   else if 2 \<le> n then Media else Debil)"

definition spec_feedback :: "string \<Rightarrow> string list" where
  "spec_feedback s = (if length s < 8 then [length_advice] else [])"

subsection \<open>Fisher-Yates as the specification words it\<close>

text \<open>
  For the index \<open>i\<close> from the last one down to 1, swap position \<open>i\<close> with the position
  \<open>pick i\<close>. The position the program picks at index \<open>i\<close>, when it shuffles an array of
  length \<open>n\<close> starting with draw number \<open>k\<close>, is \<open>chosen_index rnd k n i\<close>: the loop has
  consumed \<open>n - 1 - i\<close> draws before it reaches \<open>i\<close>.
\<close>

fun fisher_yates :: "(nat \<Rightarrow> nat) \<Rightarrow> nat \<Rightarrow> 'a list \<Rightarrow> 'a list" where
  "fisher_yates pick 0 a = a"
| "fisher_yates pick (Suc i) a = fisher_yates pick i (swap a (Suc i) (pick (Suc i)))"

definition chosen_index :: "random_source \<Rightarrow> nat \<Rightarrow> nat \<Rightarrow> nat \<Rightarrow> nat" where
  "chosen_index rnd k n i =
     nat (Math_floor (times_double (rnd (k + (n - 1 - i))) (int i + 1)))"

subsection \<open>Concrete inputs\<close>

text \<open>
  Concrete random sources, used to run the generator on concrete settings: the constant
  0, the doubles next below \<open>0/7, 1/7, ..., 6/7\<close> in turn, and the constant
  0.6666666666666666, the double next below \<open>2/3\<close>.
\<close>

definition zero_source :: random_source where
  "zero_source k = (0, 53)"

definition cycle7 :: random_source where
  "cycle7 k = (int (k mod 7) * 2 ^ 53 div 7, 53)"

definition below_two_thirds :: random_source where
  "below_two_thirds k = (6004799503160661, 53)"

section \<open>Properties\<close>

text \<open>
  Two products that round upwards: \<open>0.6666666666666666 * 3\<close> is the double \<open>2\<close> and
  \<open>0.7 * 10\<close> is the double \<open>7\<close>, although the exact products are below 2 and below 7.
\<close>

lemma times_double_rounds_up:
  "times_double (6004799503160661, 53) 3 = (2 * 2 ^ 53, 53)"
  "Math_floor (times_double (6004799503160661, 53) 3) = 2"
  "6004799503160661 * 3 < (2 * 2 ^ 53 :: int)"
  "Math_floor (times_double (6305039478318694, 53) 10) = 7"
  "6305039478318694 * 10 < (7 * 2 ^ 53 :: int)"
  by code_simp+

lemma bit_length_lower: "0 < n \<Longrightarrow> 2 ^ (bit_length n - 1) \<le> n"
proof (induction n rule: bit_length.induct)
  case (1 n)
  show ?case
  proof (cases "n div 2 \<le> 0")
    case True
    have "bit_length (n div 2) = 0" using True by (simp add: bit_length.simps [of "n div 2"])
    with "1.prems" show ?thesis
      by (simp add: bit_length.simps [of n])
  next
    case False
    then have pos: "0 < n div 2" by simp
    have ih: "2 ^ (bit_length (n div 2) - 1) \<le> n div 2"
      using "1.IH" "1.prems" pos by simp
    have bl: "0 < bit_length (n div 2)"
      using False by (simp add: bit_length.simps [of "n div 2"])
    have "bit_length n - 1 = Suc (bit_length (n div 2) - 1)"
      using "1.prems" bl by (simp add: bit_length.simps [of n])
    then have "(2::int) ^ (bit_length n - 1) = 2 * 2 ^ (bit_length (n div 2) - 1)" by simp
    also have "\<dots> \<le> 2 * (n div 2)" using ih by simp
    also have "\<dots> \<le> n" by simp
    finally show ?thesis .
  qed
qed

lemma round_half_even_zero: "round_half_even N 0 = N"
  by (simp add: round_half_even_def)

lemma round_half_even_near:
  "2 * (round_half_even N s * 2 ^ s) \<le> 2 * N + 2 ^ s
   \<and> 2 * N \<le> 2 * (round_half_even N s * 2 ^ s) + 2 ^ s"
proof -
  define e :: int where "e = 2 ^ s"
  define q where "q = N div e"
  define r where "r = N mod e"
  have e: "0 < e" by (simp add: e_def)
  have N: "N = q * e + r" unfolding q_def r_def by (rule div_mult_mod_eq [symmetric])
  have r: "0 \<le> r" "r < e" using e by (simp_all add: r_def)
  have "2 * (round_half_even N s * e) \<le> 2 * N + e \<and> 2 * N \<le> 2 * (round_half_even N s * e) + e"
  proof (cases "e < 2 * r \<or> (2 * r = e \<and> odd q)")
    case True
    then have "round_half_even N s = q + 1"
      by (simp add: round_half_even_def q_def r_def e_def Let_def)
    then have "round_half_even N s * e = q * e + e" by (simp add: distrib_right)
    moreover have "e \<le> 2 * r" using True by auto
    ultimately show ?thesis using r N by linarith
  next
    case False
    then have "round_half_even N s = q"
      by (simp add: round_half_even_def q_def r_def e_def Let_def)
    then have "round_half_even N s * e = q * e" by simp
    moreover have "2 * r \<le> e" using False by auto
    ultimately show ?thesis using r N by linarith
  qed
  then show ?thesis by (simp only: e_def)
qed

lemma relative_error:
  fixes K e N num :: int
  assumes "0 \<le> K" "e * K \<le> 2 * N" "2 * num \<le> 2 * N + e" "2 * N \<le> 2 * num + e"
  shows "(K - 1) * N \<le> K * num \<and> K * num \<le> (K + 1) * N"
proof -
  have a: "K * (2 * num) \<le> K * (2 * N + e)" using assms(1,3) by (rule mult_left_mono [rotated])
  have b: "K * (2 * N) \<le> K * (2 * num + e)" using assms(1,4) by (rule mult_left_mono [rotated])
  have c: "K * (2 * num) = 2 * (K * num)" "K * (2 * N + e) = 2 * (K * N) + e * K"
    "K * (2 * N) = 2 * (K * N)" "K * (2 * num + e) = 2 * (K * num) + e * K"
    "(K - 1) * N = K * N - N" "(K + 1) * N = K * N + N"
    by (simp_all add: algebra_simps)
  from a b assms(2) show ?thesis unfolding c by linarith
qed

lemma below_bound:
  fixes K m n num :: int
  assumes "0 < K" "K * num \<le> (K + 1) * (m * n)" "m \<le> K - 1" "0 < n"
  shows "num < K * n"
proof -
  have "m * n \<le> (K - 1) * n" using assms(3,4) by (simp add: mult_right_mono)
  then have "(K + 1) * (m * n) \<le> (K + 1) * ((K - 1) * n)"
    using assms(1) by (simp add: mult_left_mono)
  also have "(K + 1) * ((K - 1) * n) = K * (K * n) - n" by (simp add: algebra_simps)
  finally have "K * num < K * (K * n)" using assms(2,4) by linarith
  then show ?thesis using assms(1) by (simp add: mult_less_cancel_left_pos)
qed

lemma times_double_error:
  assumes "0 \<le> m * n"
  shows "(2 ^ 53 - 1) * (m * n) \<le> 2 ^ 53 * fst (times_double (m, p) n)
       \<and> 2 ^ 53 * fst (times_double (m, p) n) \<le> (2 ^ 53 + 1) * (m * n)"
proof -
  define K :: int where "K = 2 ^ 53"
  define N where "N = m * n"
  define s where "s = bit_length N - 53"
  define num where "num = round_half_even N s * 2 ^ s"
  have td: "fst (times_double (m, p) n) = num"
    by (simp add: times_double_def Let_def N_def s_def num_def)
  have N0: "0 \<le> N" using assms by (simp add: N_def)
  have K0: "0 \<le> K" by (simp add: K_def)
  have "(K - 1) * N \<le> K * num \<and> K * num \<le> (K + 1) * N"
  proof (cases "s = 0")
    case True
    then have "num = N" by (simp add: num_def round_half_even_zero)
    moreover have "(K - 1) * N = K * N - N" "(K + 1) * N = K * N + N"
      by (simp_all add: algebra_simps)
    ultimately show ?thesis using N0 by simp
  next
    case False
    then have bl: "bit_length N - 1 = s + 52" by (simp add: s_def)
    have "N \<noteq> 0" using False by (auto simp: s_def bit_length.simps [of 0])
    then have "0 < N" using N0 by simp
    from bit_length_lower [OF this] have "2 ^ (s + 52) \<le> N" unfolding bl .
    then have "2 ^ s * 2 ^ 52 \<le> N" by (simp only: power_add)
    then have "2 * (2 ^ s * 2 ^ 52) \<le> 2 * N" by simp
    moreover have "2 * (2 ^ s * 2 ^ 52) = 2 ^ s * K"
      unfolding K_def by (simp only: power_Suc [symmetric] mult.left_commute [of 2]) simp
    ultimately have big: "2 ^ s * K \<le> 2 * N" by simp
    from round_half_even_near [of N s]
    have near: "2 * num \<le> 2 * N + 2 ^ s" "2 * N \<le> 2 * num + 2 ^ s"
      by (simp_all only: num_def)
    from relative_error [OF K0 big near] show ?thesis .
  qed
  then show ?thesis unfolding td K_def N_def .
qed

lemma div_less_of_less_mult:
  fixes num e n :: int
  assumes "0 < e" "num < n * e"
  shows "num div e < n"
proof (rule ccontr)
  assume "\<not> num div e < n"
  then have "n * e \<le> num div e * e" using assms(1) by (simp add: mult_right_mono)
  also have "num div e * e \<le> num"
  proof -
    have "num = num div e * e + num mod e" by (rule div_mult_mod_eq [symmetric])
    moreover have "0 \<le> num mod e" using assms(1) by simp
    ultimately show ?thesis by linarith
  qed
  finally show False using assms(2) by simp
qed

lemma Math_floor_times_range:
  assumes "is_double01 d" "0 < n"
  shows "0 \<le> Math_floor (times_double d n) \<and> Math_floor (times_double d n) < n"
proof -
  obtain m p where d: "d = (m, p)" by (cases d)
  define K :: int where "K = 2 ^ 53"
  have K0: "0 < K" by (simp add: K_def)
  have m: "0 \<le> m" "m \<le> K - 1" and p: "53 \<le> p"
    using assms(1) by (simp_all add: is_double01_def d K_def)
  define num where "num = fst (times_double (m, p) n)"
  have sp: "snd (times_double (m, p) n) = p" by (simp add: times_double_def Let_def)
  have mn: "0 \<le> m * n" using m(1) assms(2) by simp
  from times_double_error [OF mn, of p]
  have lo: "(K - 1) * (m * n) \<le> K * num" and hi: "K * num \<le> (K + 1) * (m * n)"
    unfolding K_def num_def by blast+
  have "0 \<le> K - 1" using m by simp
  then have "0 \<le> (K - 1) * (m * n)" using mn by (rule mult_nonneg_nonneg)
  then have "0 \<le> K * num" using lo by simp
  then have num0: "0 \<le> num" using K0 by (simp add: zero_le_mult_iff)
  have "num < K * n" using K0 hi m(2) assms(2) by (rule below_bound)
  also have "K \<le> 2 ^ p" unfolding K_def using p by (simp only: power_increasing one_le_numeral)
  then have "K * n \<le> 2 ^ p * n" using assms(2) by (simp add: mult_right_mono)
  finally have "num < n * 2 ^ p" by (simp add: mult.commute)
  then have "num div 2 ^ p < n" by (intro div_less_of_less_mult) simp_all
  moreover have "0 \<le> num div 2 ^ p" using num0 by (simp add: pos_imp_zdiv_nonneg_iff)
  ultimately show ?thesis by (simp add: Math_floor_def d num_def sp)
qed

lemma charAt_in_range:
  "0 \<le> i \<Longrightarrow> i < int (length s) \<Longrightarrow> charAt s i = [s ! nat i] \<and> s ! nat i \<in> set s"
  by (simp add: charAt_def)

lemma getRandomChar_single:
  assumes "unit_interval rnd" "chars \<noteq> []"
  shows "\<exists>c \<in> set chars. getRandomChar rnd chars k = ([c], Suc k)"
proof -
  have r: "is_double01 (rnd k)" using assms(1) by (simp add: unit_interval_def)
  have n: "0 < int (length chars)" using assms(2) by simp
  from Math_floor_times_range [OF r n]
  have "0 \<le> Math_floor (times_double (rnd k) (int (length chars)))"
    "Math_floor (times_double (rnd k) (int (length chars))) < int (length chars)"
    by simp_all
  from charAt_in_range [OF this] show ?thesis
    by (auto simp: getRandomChar_def)
qed

lemma array_from_props:
  assumes "unit_interval rnd" "chars \<noteq> []"
  shows "length (fst (array_from rnd chars n k)) = n
       \<and> snd (array_from rnd chars n k) = k + n
       \<and> (\<forall>s \<in> set (fst (array_from rnd chars n k)). \<exists>c \<in> set chars. s = [c])"
proof (induction n arbitrary: k)
  case 0
  show ?case by simp
next
  case (Suc n)
  obtain c where c: "c \<in> set chars" "getRandomChar rnd chars k = ([c], Suc k)"
    using getRandomChar_single [OF assms] by blast
  from Suc [of "Suc k"] c show ?case
    by (auto simp: split_beta)
qed

lemma mset_swap_in_range:
  "i < length a \<Longrightarrow> j < length a \<Longrightarrow> mset (swap a i j) = mset a"
  unfolding swap_def by (simp add: mset_swap)

lemma length_swap [simp]: "length (swap a i j) = length a"
  by (simp add: swap_def)

lemma shuffle_loop_props:
  "unit_interval rnd \<Longrightarrow> i < int (length a) \<Longrightarrow>
         mset (fst (shuffle_loop rnd i a k)) = mset a \<and> snd (shuffle_loop rnd i a k) = k + nat i"
proof (induction rnd i a k rule: shuffle_loop.induct)
  case (1 rnd i shuffled k)
  show ?case
  proof (cases "i > 0")
    case False
    then show ?thesis by (simp add: shuffle_loop.simps)
  next
    case True
    define j where "j = Math_floor (times_double (rnd k) (i + 1))"
    have r: "is_double01 (rnd k)" using "1.prems"(1) by (simp add: unit_interval_def)
    have "0 < i + 1" using True by simp
    from Math_floor_times_range [OF r this] have j: "0 \<le> j" "j < i + 1" by (simp_all add: j_def)
    have step: "shuffle_loop rnd i shuffled k
        = shuffle_loop rnd (i - 1) (swap shuffled (nat i) (nat j)) (Suc k)"
      using True by (subst shuffle_loop.simps) (simp add: j_def Let_def)
    have "i - 1 < int (length (swap shuffled (nat i) (nat j)))" using "1.prems" by simp
    from "1.IH" [OF True j_def "1.prems"(1) this]
    have ih: "mset (fst (shuffle_loop rnd (i - 1) (swap shuffled (nat i) (nat j)) (Suc k)))
                = mset (swap shuffled (nat i) (nat j))"
             "snd (shuffle_loop rnd (i - 1) (swap shuffled (nat i) (nat j)) (Suc k))
                = Suc k + nat (i - 1)"
      by simp_all
    have "nat i < length shuffled" "nat j < length shuffled" using "1.prems" True j by linarith+
    then have "mset (swap shuffled (nat i) (nat j)) = mset shuffled" by (rule mset_swap_in_range)
    with ih step True show ?thesis by (simp add: nat_diff_distrib)
  qed
qed

lemma include_class_step:
  assumes "unit_interval rnd" "cs \<noteq> []" "list_all2 one_of g E"
  shows "\<exists>g'. include_class rnd flag cs (concat E, g, k)
            = (concat (E @ (if flag then [cs] else [])), g', k + (if flag then 1 else 0))
          \<and> list_all2 one_of g' (E @ (if flag then [cs] else []))"
proof (cases flag)
  case False
  with assms(3) show ?thesis by (simp add: include_class_def)
next
  case True
  obtain c where c: "c \<in> set cs" "getRandomChar rnd cs k = ([c], Suc k)"
    using getRandomChar_single [OF assms(1,2)] by blast
  have "list_all2 one_of (g @ [[c]]) (E @ [cs])"
    using assms(3) c(1) by (simp add: list_all2_appendI one_of_def)
  with True c(2) show ?thesis by (simp add: include_class_def)
qed

lemma CHAR_SETS_nonempty:
  "CHAR_SETS_lowercase \<noteq> []" "CHAR_SETS_uppercase \<noteq> []"
  "CHAR_SETS_numbers \<noteq> []" "CHAR_SETS_symbols \<noteq> []"
  by (simp_all add: CHAR_SETS_lowercase_def CHAR_SETS_uppercase_def
        CHAR_SETS_numbers_def CHAR_SETS_symbols_def)

lemma collect_classes_available:
  "fst (collect_classes rnd ps k) = concat (enabled_classes ps)"
  by (simp add: collect_classes_def include_class_def enabled_classes_def split_beta)

lemma collect_classes_props:
  assumes "unit_interval rnd"
  shows "\<exists>g. collect_classes rnd ps k
            = (concat (enabled_classes ps), g, k + length (enabled_classes ps))
          \<and> list_all2 one_of g (enabled_classes ps)"
proof -
  let ?E1 = "if includeLowercase ps then [CHAR_SETS_lowercase] else []"
  let ?E2 = "if includeUppercase ps then [CHAR_SETS_uppercase] else []"
  let ?E3 = "if includeNumbers ps then [CHAR_SETS_numbers] else []"
  let ?E4 = "if includeSymbols ps then [CHAR_SETS_symbols] else []"
  have "list_all2 one_of [] []" by simp
  from include_class_step [OF assms CHAR_SETS_nonempty(1) this, of "includeLowercase ps" k]
  obtain g1 where s1: "include_class rnd (includeLowercase ps) CHAR_SETS_lowercase ([], [], k)
        = (concat ?E1, g1, k + length ?E1)" and g1: "list_all2 one_of g1 ?E1"
    by auto
  from include_class_step [OF assms CHAR_SETS_nonempty(2) g1, of "includeUppercase ps" "k + length ?E1"]
  obtain g2 where s2: "include_class rnd (includeUppercase ps) CHAR_SETS_uppercase (concat ?E1, g1, k + length ?E1)
        = (concat (?E1 @ ?E2), g2, k + length (?E1 @ ?E2))" and g2: "list_all2 one_of g2 (?E1 @ ?E2)"
    by auto
  from include_class_step [OF assms CHAR_SETS_nonempty(3) g2, of "includeNumbers ps" "k + length (?E1 @ ?E2)"]
  obtain g3 where s3: "include_class rnd (includeNumbers ps) CHAR_SETS_numbers (concat (?E1 @ ?E2), g2, k + length (?E1 @ ?E2))
        = (concat ((?E1 @ ?E2) @ ?E3), g3, k + length ((?E1 @ ?E2) @ ?E3))" and g3: "list_all2 one_of g3 ((?E1 @ ?E2) @ ?E3)"
    by auto
  from include_class_step [OF assms CHAR_SETS_nonempty(4) g3, of "includeSymbols ps" "k + length ((?E1 @ ?E2) @ ?E3)"]
  obtain g4 where s4: "include_class rnd (includeSymbols ps) CHAR_SETS_symbols (concat ((?E1 @ ?E2) @ ?E3), g3, k + length ((?E1 @ ?E2) @ ?E3))
        = (concat (((?E1 @ ?E2) @ ?E3) @ ?E4), g4, k + length (((?E1 @ ?E2) @ ?E3) @ ?E4))" and g4: "list_all2 one_of g4 (((?E1 @ ?E2) @ ?E3) @ ?E4)"
    by auto
  have E: "enabled_classes ps = ((?E1 @ ?E2) @ ?E3) @ ?E4"
    by (simp add: enabled_classes_def)
  have "collect_classes rnd ps k = (concat (enabled_classes ps), g4, k + length (enabled_classes ps))"
    unfolding collect_classes_def E s1 s2 s3 s4 ..
  with g4 E show ?thesis by metis
qed

lemma concat_enabled_nonempty:
  "enabled_classes ps \<noteq> [] \<Longrightarrow> concat (enabled_classes ps) \<noteq> []"
  by (auto simp: enabled_classes_def CHAR_SETS_nonempty split: if_splits)

lemma password_array_props:
  assumes "unit_interval rnd" "enabled_classes ps \<noteq> []"
  shows "\<exists>g filled. password_array rnd ps k
            = (Inr (g @ filled), k + length (enabled_classes ps) + remaining ps)
          \<and> list_all2 one_of g (enabled_classes ps)
          \<and> length filled = remaining ps
          \<and> (\<forall>s \<in> set filled. one_of s (concat (enabled_classes ps)))"
proof -
  let ?E = "enabled_classes ps"
  obtain g where g: "collect_classes rnd ps k = (concat ?E, g, k + length ?E)"
      "list_all2 one_of g ?E"
    using collect_classes_props [OF assms(1)] by blast
  have ne: "concat ?E \<noteq> []" using assms(2) by (rule concat_enabled_nonempty)
  have lg: "length g = length ?E" using g(2) by (rule list_all2_lengthD)
  let ?A = "array_from rnd (concat ?E) (remaining ps) (k + length ?E)"
  from array_from_props [OF assms(1) ne, of "remaining ps" "k + length ?E"]
  have a: "length (fst ?A) = remaining ps" "snd ?A = k + length ?E + remaining ps"
      "\<forall>s \<in> set (fst ?A). one_of s (concat ?E)"
    unfolding one_of_def by blast+
  have "password_array rnd ps k = (Inr (g @ fst ?A), snd ?A)"
    using ne by (simp add: password_array_def g(1) lg remaining_def split_beta Let_def)
  with a g(2) show ?thesis by auto
qed

lemma password_array_error:
  "enabled_classes ps = [] \<Longrightarrow> password_array rnd ps k = (Inl InvalidConfiguration, k)"
  by (simp add: password_array_def collect_classes_def include_class_def enabled_classes_def
        split: if_splits)

lemma generate_of_array:
  assumes "unit_interval rnd" "password_array rnd ps k = (Inr pw, k1)"
  shows "\<exists>shuffled. generateSecurePassword rnd ps k
            = (Inr (concat shuffled), k1 + (length pw - 1))
          \<and> mset shuffled = mset pw"
proof -
  have "int (length pw) - 1 < int (length pw)" by simp
  from shuffle_loop_props [OF assms(1) this, of k1]
  have "mset (fst (shuffleArray rnd pw k1)) = mset pw"
       "snd (shuffleArray rnd pw k1) = k1 + (length pw - 1)"
    by (simp_all add: shuffleArray_def nat_diff_distrib)
  then show ?thesis
    using assms(2)
    by (intro exI [of _ "fst (shuffleArray rnd pw k1)"])
       (simp add: generateSecurePassword_def split_beta)
qed

lemma one_of_all_length:
  "\<forall>s \<in> set xs. \<exists>cls. one_of s cls \<Longrightarrow> length (concat xs) = length xs"
  by (induction xs) (auto simp: one_of_def)

lemma mset_concat_image:
  "mset (concat xs) = sum_mset (image_mset mset (mset xs))"
  by (induction xs) auto

lemma mset_concat_mset:
  "mset xs = mset ys \<Longrightarrow> mset (concat xs) = mset (concat ys)"
  by (simp add: mset_concat_image)

lemma enabled_classes_nonempty_iff:
  "enabled_classes ps \<noteq> [] \<longleftrightarrow> validateSettings ps"
  by (auto simp: enabled_classes_def validateSettings_def)

lemma one_of_member:
  "list_all2 one_of g E \<Longrightarrow> cls \<in> set E \<Longrightarrow> \<exists>c \<in> set cls. [c] \<in> set g"
  by (induction rule: list_all2_induct) (auto simp: one_of_def)

lemma one_of_concat:
  "list_all2 one_of g E \<Longrightarrow> s \<in> set g \<Longrightarrow> one_of s (concat E)"
  by (induction rule: list_all2_induct) (auto simp: one_of_def)

lemma generate_summary:
  assumes "unit_interval rnd" "validateSettings ps"
  shows "\<exists>s k'. generateSecurePassword rnd ps k = (Inr s, k')
          \<and> length s = length (enabled_classes ps) + remaining ps
          \<and> (\<forall>cls \<in> set (enabled_classes ps). \<exists>c \<in> set s. c \<in> set cls)
          \<and> set s \<subseteq> set (concat (enabled_classes ps))"
proof -
  let ?E = "enabled_classes ps"
  have ne: "?E \<noteq> []" using assms(2) by (simp add: enabled_classes_nonempty_iff)
  obtain g filled where pa:
      "password_array rnd ps k = (Inr (g @ filled), k + length ?E + remaining ps)"
      and g: "list_all2 one_of g ?E"
      and lf: "length filled = remaining ps"
      and f: "\<forall>s \<in> set filled. one_of s (concat ?E)"
    using password_array_props [OF assms(1) ne] by blast
  obtain shuffled where gen:
      "generateSecurePassword rnd ps k
         = (Inr (concat shuffled), k + length ?E + remaining ps + (length (g @ filled) - 1))"
      and ms: "mset shuffled = mset (g @ filled)"
    using generate_of_array [OF assms(1) pa] by blast
  have all: "\<forall>s \<in> set (g @ filled). one_of s (concat ?E)"
    using f one_of_concat [OF g] by auto
  have sets: "set shuffled = set (g @ filled)" using ms by (rule mset_eq_setD)
  have "length (concat shuffled) = length shuffled"
    using all sets by (intro one_of_all_length) auto
  also have "\<dots> = length (g @ filled)" using ms by (rule mset_eq_length)
  also have "\<dots> = length ?E + remaining ps"
    using lf list_all2_lengthD [OF g] by simp
  finally have len: "length (concat shuffled) = length ?E + remaining ps" .
  have cover: "\<exists>c \<in> set (concat shuffled). c \<in> set cls" if cls: "cls \<in> set ?E" for cls
  proof -
    obtain c where "c \<in> set cls" "[c] \<in> set g" using one_of_member [OF g cls] by blast
    then have c: "c \<in> set cls" "[c] \<in> set shuffled" using sets by simp_all
    from c(2) have "c \<in> set (concat shuffled)" by (auto intro: bexI [of _ "[c]"])
    with c(1) show ?thesis by blast
  qed
  have sub: "set (concat shuffled) \<subseteq> set (concat ?E)"
  proof
    fix c assume "c \<in> set (concat shuffled)"
    then obtain s where s: "s \<in> set (g @ filled)" "c \<in> set s" using sets by auto
    from all s(1) have "one_of s (concat ?E)" by blast
    then obtain d where "d \<in> set (concat ?E)" "s = [d]" unfolding one_of_def by blast
    with s(2) show "c \<in> set (concat ?E)" by simp
  qed
  from gen len cover sub show ?thesis by blast
qed

lemma generate_length_ok:
  assumes "unit_interval rnd" "validateSettings ps"
    and "int (length (enabled_classes ps)) \<le> length_ps ps"
  shows "\<exists>s k'. generateSecurePassword rnd ps k = (Inr s, k') \<and> int (length s) = length_ps ps"
proof -
  from generate_summary [OF assms(1,2), of k] obtain s k' where
    "generateSecurePassword rnd ps k = (Inr s, k')"
    "length s = length (enabled_classes ps) + remaining ps" by blast
  moreover have "int (length (enabled_classes ps) + remaining ps) = length_ps ps"
    using assms(3) by (simp add: remaining_def)
  ultimately show ?thesis by auto
qed

lemma unit_interval_zero_source: "unit_interval zero_source"
  by (simp add: unit_interval_def zero_source_def is_double01_def)

lemma unit_interval_cycle7: "unit_interval cycle7"
proof -
  have "is_double01 (cycle7 k)" for k
  proof -
    define t where "t = int (k mod 7)"
    define K :: int where "K = 2 ^ 53"
    have "k mod 7 < 7" by simp
    then have t: "0 \<le> t" "t \<le> 6" unfolding t_def by linarith+
    have K: "0 < K" by (simp add: K_def)
    have "0 \<le> t * K" using t(1) K by simp
    then have lo: "0 \<le> t * K div 7" by (simp add: pos_imp_zdiv_nonneg_iff)
    have "t * K \<le> 6 * K" using t(2) K by (simp add: mult_right_mono)
    then have "t * K < K * 7" using K by linarith
    then have hi: "t * K div 7 < K" by (intro div_less_of_less_mult) simp_all
    from lo hi show ?thesis
      unfolding cycle7_def is_double01_def t_def K_def by simp
  qed
  then show ?thesis by (simp add: unit_interval_def)
qed

lemma unit_interval_below_two_thirds: "unit_interval below_two_thirds"
  by (simp add: unit_interval_def below_two_thirds_def is_double01_def)

lemma password_array_ok:
  assumes "validateSettings ps"
  shows "\<exists>pw k1. password_array rnd ps k = (Inr pw, k1)"
proof -
  obtain av g k' where c: "collect_classes rnd ps k = (av, g, k')"
    by (rule prod_cases3)
  have "av = concat (enabled_classes ps)"
    using collect_classes_available [of rnd ps k] c by simp
  moreover have "enabled_classes ps \<noteq> []"
    using assms by (simp add: enabled_classes_nonempty_iff)
  ultimately have "av \<noteq> []" using concat_enabled_nonempty by simp
  then show ?thesis
    by (simp add: password_array_def c Let_def split_beta)
qed

lemma evaluate_score: "score (evaluatePasswordStrength s) = spec_score s"
  by (simp add: evaluatePasswordStrength_def spec_score_def length_points_def class_points_def
        contains_def regex_test_def list_ex_iff Let_def)

lemma evaluate_feedback: "feedback (evaluatePasswordStrength s) = spec_feedback s"
  by (simp add: evaluatePasswordStrength_def spec_feedback_def length_advice_def Let_def)

lemma evaluate_strength:
  "strength (evaluatePasswordStrength s) = spec_label (score (evaluatePasswordStrength s))"
  by (simp add: evaluatePasswordStrength_def spec_label_def Let_def)

lemma lowercase_is_lower: "c \<in> set CHAR_SETS_lowercase \<Longrightarrow> lower_az c"
  by (auto simp: CHAR_SETS_lowercase_def lower_az_def)

lemma uppercase_is_upper: "c \<in> set CHAR_SETS_uppercase \<Longrightarrow> upper_AZ c"
  by (auto simp: CHAR_SETS_uppercase_def upper_AZ_def)

lemma numbers_is_digit: "c \<in> set CHAR_SETS_numbers \<Longrightarrow> digit_09 c"
  by (auto simp: CHAR_SETS_numbers_def digit_09_def)

lemma symbols_is_not_alnum: "c \<in> set CHAR_SETS_symbols \<Longrightarrow> not_alnum c"
  by (auto simp: CHAR_SETS_symbols_def not_alnum_def lower_az_def upper_AZ_def digit_09_def)

lemma fisher_yates_cong:
  "(\<And>i. 1 \<le> i \<Longrightarrow> i \<le> m \<Longrightarrow> f i = g i) \<Longrightarrow> fisher_yates f m a = fisher_yates g m a"
  by (induction m arbitrary: a) simp_all

lemma shuffle_loop_fisher_yates:
  "shuffle_loop rnd (int m) a k
     = (fisher_yates (\<lambda>i. nat (Math_floor (times_double (rnd (k + (m - i))) (int i + 1)))) m a,
        k + m)"
proof (induction m arbitrary: a k)
  case 0
  show ?case by (simp add: shuffle_loop.simps)
next
  case (Suc m)
  let ?j = "nat (Math_floor (times_double (rnd k) (int (Suc m) + 1)))"
  have "shuffle_loop rnd (int (Suc m)) a k
      = shuffle_loop rnd (int m) (swap a (Suc m) ?j) (Suc k)"
  proof -
    have "int (Suc m) - 1 = int m" "nat (int (Suc m)) = Suc m" by simp_all
    then show ?thesis
      by (subst shuffle_loop.simps) (simp only: Let_def of_nat_0_less_iff zero_less_Suc if_True)
  qed
  also have "\<dots> = (fisher_yates
        (\<lambda>i. nat (Math_floor (times_double (rnd (Suc k + (m - i))) (int i + 1)))) m
        (swap a (Suc m) ?j), Suc k + m)"
    by (rule Suc.IH)
  also have "fisher_yates
        (\<lambda>i. nat (Math_floor (times_double (rnd (Suc k + (m - i))) (int i + 1)))) m
        (swap a (Suc m) ?j)
      = fisher_yates
        (\<lambda>i. nat (Math_floor (times_double (rnd (k + (Suc m - i))) (int i + 1)))) m
        (swap a (Suc m) ?j)"
    by (rule fisher_yates_cong) (simp add: Suc_diff_le)
  finally show ?case by simp
qed

lemma real_sandwich:
  fixes K P X Y :: real
  assumes "0 < K" "0 < P" "(K - 1) * X \<le> K * Y" "K * Y \<le> (K + 1) * X"
  shows "(1 - 1 / K) * (X / P) \<le> Y / P \<and> Y / P \<le> (1 + 1 / K) * (X / P)"
proof -
  have "(1 - 1 / K) * X = ((K - 1) * X) / K" "(1 + 1 / K) * X = ((K + 1) * X) / K"
    using assms(1) by (simp_all add: field_simps)
  moreover have "((K - 1) * X) / K \<le> Y" "Y \<le> ((K + 1) * X) / K"
    using assms(1,3,4) by (simp_all add: pos_divide_le_eq pos_le_divide_eq mult.commute)
  ultimately have "(1 - 1 / K) * X \<le> Y" "Y \<le> (1 + 1 / K) * X" by simp_all
  then have "(1 - 1 / K) * X / P \<le> Y / P" "Y / P \<le> (1 + 1 / K) * X / P"
    using assms(2) by (simp_all add: divide_right_mono)
  then show ?thesis by simp
qed

lemma Math_floor_times_sandwich:
  assumes "is_double01 d" "0 \<le> n"
  shows "\<lfloor>(1 - 1 / 2 ^ 53) * (dyadic_value d * real_of_int n)\<rfloor>
           \<le> Math_floor (times_double d n)
       \<and> Math_floor (times_double d n)
           \<le> \<lfloor>(1 + 1 / 2 ^ 53) * (dyadic_value d * real_of_int n)\<rfloor>"
proof -
  obtain m p where d: "d = (m, p)" by (cases d)
  have m: "0 \<le> m" using assms(1) by (simp add: is_double01_def d)
  define num where "num = fst (times_double (m, p) n)"
  have sp: "snd (times_double (m, p) n) = p" by (simp add: times_double_def Let_def)
  have mn: "0 \<le> m * n" using m assms(2) by simp
  from times_double_error [OF mn, of p]
  have "(2 ^ 53 - 1) * (m * n) \<le> 2 ^ 53 * num" "2 ^ 53 * num \<le> (2 ^ 53 + 1) * (m * n)"
    by (simp_all only: num_def)
  then have "real_of_int ((2 ^ 53 - 1) * (m * n)) \<le> real_of_int (2 ^ 53 * num)"
    "real_of_int (2 ^ 53 * num) \<le> real_of_int ((2 ^ 53 + 1) * (m * n))"
    by (simp_all only: of_int_le_iff)
  then have e: "(2 ^ 53 - 1) * real_of_int (m * n) \<le> 2 ^ 53 * real_of_int num"
    "2 ^ 53 * real_of_int num \<le> (2 ^ 53 + 1) * real_of_int (m * n)"
    by (simp_all only: of_int_mult of_int_diff of_int_add of_int_power of_int_numeral of_int_1)
  have "(0::real) < 2 ^ 53" "(0::real) < 2 ^ p" by simp_all
  from real_sandwich [OF this e]
  have s: "(1 - 1 / 2 ^ 53) * (real_of_int (m * n) / 2 ^ p) \<le> real_of_int num / 2 ^ p"
    "real_of_int num / 2 ^ p \<le> (1 + 1 / 2 ^ 53) * (real_of_int (m * n) / 2 ^ p)"
    by blast+
  have x: "dyadic_value d * real_of_int n = real_of_int (m * n) / 2 ^ p"
    by (simp add: dyadic_value_def d)
  have "Math_floor (times_double d n) = num div 2 ^ p"
    by (simp add: Math_floor_def d num_def sp)
  also have "\<dots> = \<lfloor>real_of_int num / real_of_int (2 ^ p)\<rfloor>"
    by (rule floor_divide_of_int_eq [symmetric])
  finally have y: "Math_floor (times_double d n) = \<lfloor>real_of_int num / 2 ^ p\<rfloor>" by simp
  show ?thesis unfolding x y using s by (simp only: floor_mono)
qed

lemma shuffle_loop_heap_eq:
  "shuffled < length h \<Longrightarrow>
   shuffle_loop_heap rnd shuffled i h k
     = (h[shuffled := fst (shuffle_loop rnd i (h ! shuffled) k)],
        snd (shuffle_loop rnd i (h ! shuffled) k))"
proof (induction rnd shuffled i h k rule: shuffle_loop_heap.induct)
  case (1 rnd shuffled i h k)
  show ?case
  proof (cases "i > 0")
    case False
    then show ?thesis
      by (simp add: shuffle_loop_heap.simps [of rnd shuffled i] shuffle_loop.simps [of rnd i])
  next
    case True
    define j where "j = Math_floor (times_double (rnd k) (i + 1))"
    let ?h1 = "h[shuffled := swap (h ! shuffled) (nat i) (nat j)]"
    have l: "shuffled < length ?h1" using "1.prems" by simp
    have h1: "?h1 ! shuffled = swap (h ! shuffled) (nat i) (nat j)" using "1.prems" by simp
    have "shuffle_loop_heap rnd shuffled i h k
        = shuffle_loop_heap rnd shuffled (i - 1) ?h1 (Suc k)"
      using True by (subst shuffle_loop_heap.simps) (simp add: j_def Let_def)
    also have "\<dots> = (?h1[shuffled := fst (shuffle_loop rnd (i - 1) (?h1 ! shuffled) (Suc k))],
                      snd (shuffle_loop rnd (i - 1) (?h1 ! shuffled) (Suc k)))"
      by (rule "1.IH" [OF True j_def l])
    also have "shuffle_loop rnd (i - 1) (?h1 ! shuffled) (Suc k) = shuffle_loop rnd i (h ! shuffled) k"
      using True unfolding h1 by (subst (2) shuffle_loop.simps) (simp add: j_def Let_def)
    finally show ?thesis by simp
  qed
qed

section \<open>The claims\<close>

text \<open>
  C1. The specification asks that for every valid configuration the generated password
  has exactly the configured length. The generator computes the fill count as
  \<open>length - guaranteedChars.length\<close> and misses the case where it is negative: with
  length 1 and the classes lowercase and uppercase enabled it returns the two guaranteed
  characters, a password of length 2.
\<close>

theorem generate_length_exceeds_request:
  "unit_interval zero_source
   \<and> valid_config \<lparr>length_ps = 1, includeUppercase = True, includeLowercase = True,
                  includeNumbers = False, includeSymbols = False\<rparr>
   \<and> generateSecurePassword zero_source
        \<lparr>length_ps = 1, includeUppercase = True, includeLowercase = True,
         includeNumbers = False, includeSymbols = False\<rparr> 0 = (Inr ''Aa'', 3)"
proof -
  have "valid_config \<lparr>length_ps = 1, includeUppercase = True, includeLowercase = True,
                  includeNumbers = False, includeSymbols = False\<rparr>
   \<and> generateSecurePassword zero_source
        \<lparr>length_ps = 1, includeUppercase = True, includeLowercase = True,
         includeNumbers = False, includeSymbols = False\<rparr> 0 = (Inr ''Aa'', 3)"
    by code_simp
  with unit_interval_zero_source show ?thesis by blast
qed

text \<open>
  C2. For every valid configuration whose length is at least the number of enabled
  classes, the generator returns a password that contains at least one character of
  each enabled class.
\<close>

theorem generate_contains_each_enabled_class:
  assumes "unit_interval rnd" and "valid_config ps"
    and "int (length (enabled_classes ps)) \<le> length_ps ps"
  shows "\<exists>s k'. generateSecurePassword rnd ps k = (Inr s, k')
           \<and> (\<forall>cls \<in> set (enabled_classes ps). \<exists>c \<in> set s. c \<in> set cls)"
proof -
  have "validateSettings ps" using assms(2) by (simp add: valid_config_def)
  from generate_summary [OF assms(1) this, of k] show ?thesis by blast
qed

theorem generate_contains_each_enabled_class_witness:
  "\<exists>s k'. generateSecurePassword cycle7
       \<lparr>length_ps = 12, includeUppercase = True, includeLowercase = True,
        includeNumbers = True, includeSymbols = True\<rparr> 0 = (Inr s, k')
     \<and> (\<exists>c \<in> set s. c \<in> set CHAR_SETS_lowercase)
     \<and> (\<exists>c \<in> set s. c \<in> set CHAR_SETS_uppercase)
     \<and> (\<exists>c \<in> set s. c \<in> set CHAR_SETS_numbers)
     \<and> (\<exists>c \<in> set s. c \<in> set CHAR_SETS_symbols)"
proof -
  let ?ps = "\<lparr>length_ps = 12, includeUppercase = True, includeLowercase = True,
        includeNumbers = True, includeSymbols = True\<rparr>"
  have v: "valid_config ?ps" by (simp add: valid_config_def validateSettings_def)
  have E: "enabled_classes ?ps
      = [CHAR_SETS_lowercase, CHAR_SETS_uppercase, CHAR_SETS_numbers, CHAR_SETS_symbols]"
    by (simp add: enabled_classes_def)
  have l: "int (length (enabled_classes ?ps)) \<le> length_ps ?ps" by (simp add: E)
  from generate_contains_each_enabled_class [OF unit_interval_cycle7 v l, of 0]
  show ?thesis by (simp add: E)
qed

text \<open>
  C3. When no character class is enabled the generator fails with the invalid
  configuration error and the draw counter is the one it was called with: no value of
  the random source has been consumed. When at least one class is enabled it does not
  fail with this error.
\<close>

theorem generate_invalid_configuration:
  "(\<not> validateSettings ps \<longrightarrow>
      generateSecurePassword rnd ps k = (Inl InvalidConfiguration, k))
   \<and> (validateSettings ps \<longrightarrow>
      fst (generateSecurePassword rnd ps k) \<noteq> Inl InvalidConfiguration)"
proof (intro conjI impI)
  assume "\<not> validateSettings ps"
  then have "enabled_classes ps = []" using enabled_classes_nonempty_iff by blast
  then show "generateSecurePassword rnd ps k = (Inl InvalidConfiguration, k)"
    by (simp add: generateSecurePassword_def password_array_error)
next
  assume "validateSettings ps"
  then obtain pw k1 where "password_array rnd ps k = (Inr pw, k1)"
    using password_array_ok by blast
  then show "fst (generateSecurePassword rnd ps k) \<noteq> Inl InvalidConfiguration"
    by (simp add: generateSecurePassword_def split_beta)
qed

theorem generate_invalid_configuration_witness:
  "generateSecurePassword cycle7
       \<lparr>length_ps = 8, includeUppercase = False, includeLowercase = False,
        includeNumbers = False, includeSymbols = False\<rparr> 5 = (Inl InvalidConfiguration, 5)
   \<and> fst (generateSecurePassword cycle7
       \<lparr>length_ps = 8, includeUppercase = False, includeLowercase = False,
        includeNumbers = True, includeSymbols = False\<rparr> 5) \<noteq> Inl InvalidConfiguration"
  using generate_invalid_configuration [of "\<lparr>length_ps = 8, includeUppercase = False,
        includeLowercase = False, includeNumbers = False, includeSymbols = False\<rparr>" cycle7 5]
    generate_invalid_configuration [of "\<lparr>length_ps = 8, includeUppercase = False,
        includeLowercase = False, includeNumbers = True, includeSymbols = False\<rparr>" cycle7 5]
  by (simp add: validateSettings_def)

text \<open>
  C4. When the requested length is smaller than the number of enabled classes, the
  specification asks for a password of exactly the requested length or a rejection.
  The generator does neither: with length 2 and all four classes enabled it returns
  the four guaranteed characters.
\<close>

theorem generate_short_length_not_truncated:
  "unit_interval zero_source
   \<and> valid_config \<lparr>length_ps = 2, includeUppercase = True, includeLowercase = True,
                  includeNumbers = True, includeSymbols = True\<rparr>
   \<and> generateSecurePassword zero_source
        \<lparr>length_ps = 2, includeUppercase = True, includeLowercase = True,
         includeNumbers = True, includeSymbols = True\<rparr> 0 = (Inr ''A0!a'', 7)"
proof -
  have "valid_config \<lparr>length_ps = 2, includeUppercase = True, includeLowercase = True,
                  includeNumbers = True, includeSymbols = True\<rparr>
   \<and> generateSecurePassword zero_source
        \<lparr>length_ps = 2, includeUppercase = True, includeLowercase = True,
         includeNumbers = True, includeSymbols = True\<rparr> 0 = (Inr ''A0!a'', 7)"
    by code_simp
  with unit_interval_zero_source show ?thesis by blast
qed

text \<open>
  C5. The shuffle returns a permutation of its input array, and so the multiset of the
  characters of the generated password is the multiset of the guaranteed and fill
  characters of the array before shuffling.
\<close>

theorem shuffle_is_permutation:
  assumes "unit_interval rnd"
  shows "mset (fst (shuffleArray rnd array k)) = mset array
       \<and> (\<forall>pw k1. password_array rnd ps k0 = (Inr pw, k1) \<longrightarrow>
            (\<exists>s k2. generateSecurePassword rnd ps k0 = (Inr s, k2)
                   \<and> mset s = mset (concat pw)))"
proof (intro conjI allI impI)
  have "int (length array) - 1 < int (length array)" by simp
  from shuffle_loop_props [OF assms this, of k]
  show "mset (fst (shuffleArray rnd array k)) = mset array"
    by (simp add: shuffleArray_def)
next
  fix pw k1 assume "password_array rnd ps k0 = (Inr pw, k1)"
  from generate_of_array [OF assms this] obtain shuffled where
    "generateSecurePassword rnd ps k0 = (Inr (concat shuffled), k1 + (length pw - 1))"
    "mset shuffled = mset pw" by blast
  then show "\<exists>s k2. generateSecurePassword rnd ps k0 = (Inr s, k2) \<and> mset s = mset (concat pw)"
    using mset_concat_mset by blast
qed

theorem shuffle_is_permutation_witness:
  "mset (fst (shuffleArray cycle7 [1, 2, 3, 4, 5 :: nat] 0)) = mset [1, 2, 3, 4, 5]
   \<and> password_array cycle7
       \<lparr>length_ps = 6, includeUppercase = True, includeLowercase = True,
        includeNumbers = False, includeSymbols = False\<rparr> 0 = (Inr [''a'', ''D'', ''o'', ''w'', ''D'', ''L''], 6)
   \<and> (\<exists>s k2. generateSecurePassword cycle7
       \<lparr>length_ps = 6, includeUppercase = True, includeLowercase = True,
        includeNumbers = False, includeSymbols = False\<rparr> 0 = (Inr s, k2)
        \<and> mset s = mset ''aDowDL'')"
proof -
  let ?ps = "\<lparr>length_ps = 6, includeUppercase = True, includeLowercase = True,
        includeNumbers = False, includeSymbols = False\<rparr>"
  have pa: "password_array cycle7 ?ps 0 = (Inr [''a'', ''D'', ''o'', ''w'', ''D'', ''L''], 6)"
    by code_simp
  from shuffle_is_permutation [OF unit_interval_cycle7, of "[1, 2, 3, 4, 5 :: nat]" 0 ?ps 0] pa
  show ?thesis by simp
qed

text \<open>
  C6. The shuffle is Fisher-Yates: it runs the index \<open>i\<close> from the last position down
  to 1 and swaps position \<open>i\<close> with the picked position, consuming one draw per step.
  The picked position is \<open>Math.floor\<close> of the double product of the draw and \<open>i + 1\<close>. It is
  never above \<open>i\<close>, and it lies between the floors of the exact product scaled by
  \<open>1 - 2^-53\<close> and by \<open>1 + 2^-53\<close>: up to the rounding of the double product at the edges,
  position \<open>j\<close> is picked exactly when the draw lies between \<open>j / (i + 1)\<close> and
  \<open>(j + 1) / (i + 1)\<close>, so the positions \<open>0, ..., i\<close> split the unit interval into \<open>i + 1\<close>
  parts of equal width and the upper bound \<open>i\<close> is included.
\<close>

theorem shuffle_is_fisher_yates:
  "shuffleArray rnd a k
     = (fisher_yates (chosen_index rnd k (length a)) (length a - 1) a, k + (length a - 1))
   \<and> (unit_interval rnd \<longrightarrow>
        (\<forall>i. chosen_index rnd k (length a) i \<le> i)
        \<and> (\<forall>i. \<lfloor>(1 - 1 / 2 ^ 53)
                   * (dyadic_value (rnd (k + (length a - 1 - i))) * real_of_int (int i + 1))\<rfloor>
                 \<le> int (chosen_index rnd k (length a) i)
               \<and> int (chosen_index rnd k (length a) i)
                 \<le> \<lfloor>(1 + 1 / 2 ^ 53)
                   * (dyadic_value (rnd (k + (length a - 1 - i))) * real_of_int (int i + 1))\<rfloor>))"
proof (intro conjI impI allI)
  have "int (length a) - 1 = int (length a - 1) \<or> a = []" by (cases a) simp_all
  then show "shuffleArray rnd a k
     = (fisher_yates (chosen_index rnd k (length a)) (length a - 1) a, k + (length a - 1))"
  proof
    assume "int (length a) - 1 = int (length a - 1)"
    then show ?thesis
      unfolding shuffleArray_def chosen_index_def
      by (simp only: shuffle_loop_fisher_yates)
  next
    assume "a = []"
    then show ?thesis by (simp add: shuffleArray_def shuffle_loop.simps)
  qed
next
  fix i assume u: "unit_interval rnd"
  then have r: "is_double01 (rnd (k + (length a - 1 - i)))" by (simp add: unit_interval_def)
  have "0 < int i + 1" by simp
  from Math_floor_times_range [OF r this]
  show "chosen_index rnd k (length a) i \<le> i"
    unfolding chosen_index_def by linarith
next
  fix i assume u: "unit_interval rnd"
  then have r: "is_double01 (rnd (k + (length a - 1 - i)))" by (simp add: unit_interval_def)
  have n: "0 < int i + 1" "0 \<le> int i + 1" by simp_all
  from Math_floor_times_range [OF r n(1)]
  have "int (chosen_index rnd k (length a) i)
      = Math_floor (times_double (rnd (k + (length a - 1 - i))) (int i + 1))"
    unfolding chosen_index_def by simp
  with Math_floor_times_sandwich [OF r n(2)]
  show "\<lfloor>(1 - 1 / 2 ^ 53)
          * (dyadic_value (rnd (k + (length a - 1 - i))) * real_of_int (int i + 1))\<rfloor>
        \<le> int (chosen_index rnd k (length a) i)"
    and "int (chosen_index rnd k (length a) i)
        \<le> \<lfloor>(1 + 1 / 2 ^ 53)
          * (dyadic_value (rnd (k + (length a - 1 - i))) * real_of_int (int i + 1))\<rfloor>"
    by simp_all
qed

theorem shuffle_is_fisher_yates_witness:
  "shuffleArray cycle7 ''abcde'' 3 = (fisher_yates (chosen_index cycle7 3 5) 4 ''abcde'', 7)
   \<and> fisher_yates (chosen_index cycle7 3 5) 4 ''abcde'' = ''abdec''
   \<and> chosen_index cycle7 3 5 4 = 2 \<and> chosen_index cycle7 3 5 3 = 2
   \<and> chosen_index cycle7 3 5 2 = 2 \<and> chosen_index cycle7 3 5 1 = 1
   \<and> shuffleArray below_two_thirds ''abc'' 0
       = (fisher_yates (chosen_index below_two_thirds 0 3) 2 ''abc'', 2)
   \<and> fisher_yates (chosen_index below_two_thirds 0 3) 2 ''abc'' = ''abc''
   \<and> chosen_index below_two_thirds 0 3 2 = 2 \<and> chosen_index below_two_thirds 0 3 1 = 1
   \<and> int (chosen_index below_two_thirds 0 3 2)
       \<le> \<lfloor>(1 + 1 / 2 ^ 53) * (dyadic_value (below_two_thirds 0) * real_of_int (int 2 + 1))\<rfloor>"
proof -
  have fy: "fisher_yates (chosen_index cycle7 3 5) 4 ''abcde'' = ''abdec''"
    "fisher_yates (chosen_index below_two_thirds 0 3) 2 ''abc'' = ''abc''"
    by code_simp+
  have ci: "chosen_index cycle7 3 5 4 = 2" "chosen_index cycle7 3 5 3 = 2"
      "chosen_index cycle7 3 5 2 = 2" "chosen_index cycle7 3 5 1 = 1"
      "chosen_index below_two_thirds 0 3 2 = 2" "chosen_index below_two_thirds 0 3 1 = 1"
    by code_simp+
  have n: "length ''abcde'' = 5" "(5::nat) - 1 = 4" "(3::nat) + 4 = 7"
      "length ''abc'' = 3" "(3::nat) - 1 = 2" "(0::nat) + 2 = 2" "(2::nat) - 2 = 0"
      "(0::nat) + 0 = 0"
    by simp_all
  note inst1 = shuffle_is_fisher_yates [of cycle7 "''abcde''" 3, unfolded n]
  note inst2 = shuffle_is_fisher_yates [of below_two_thirds "''abc''" 0, unfolded n]
  have th1: "shuffleArray cycle7 ''abcde'' 3
       = (fisher_yates (chosen_index cycle7 3 5) 4 ''abcde'', 7)"
    using inst1 by (rule conjunct1)
  have th2: "shuffleArray below_two_thirds ''abc'' 0
       = (fisher_yates (chosen_index below_two_thirds 0 3) 2 ''abc'', 2)"
    using inst2 by (rule conjunct1)
  have "int (chosen_index below_two_thirds 0 3 2)
       \<le> \<lfloor>(1 + 1 / 2 ^ 53)
           * (dyadic_value (below_two_thirds (0 + (2 - 2))) * real_of_int (int 2 + 1))\<rfloor>"
    using inst2 unit_interval_below_two_thirds by blast
  then have sw: "int (chosen_index below_two_thirds 0 3 2)
       \<le> \<lfloor>(1 + 1 / 2 ^ 53) * (dyadic_value (below_two_thirds 0) * real_of_int (int 2 + 1))\<rfloor>"
    by (simp only: n)
  from th1 th2 fy ci sw show ?thesis by blast
qed

text \<open>
  C7. The pool \<open>availableChars\<close> is the concatenation of the enabled class strings in
  the order lowercase, uppercase, numbers, symbols, and every character of a generated
  password belongs to one of the enabled classes.
\<close>

theorem generate_chars_from_enabled_classes:
  assumes "unit_interval rnd"
  shows "fst (collect_classes rnd ps k)
           = (if includeLowercase ps then CHAR_SETS_lowercase else [])
           @ (if includeUppercase ps then CHAR_SETS_uppercase else [])
           @ (if includeNumbers ps then CHAR_SETS_numbers else [])
           @ (if includeSymbols ps then CHAR_SETS_symbols else [])
       \<and> (\<forall>s k'. generateSecurePassword rnd ps k = (Inr s, k') \<longrightarrow>
            (\<forall>c \<in> set s. \<exists>cls \<in> set (enabled_classes ps). c \<in> set cls))"
proof (intro conjI allI impI)
  show "fst (collect_classes rnd ps k)
           = (if includeLowercase ps then CHAR_SETS_lowercase else [])
           @ (if includeUppercase ps then CHAR_SETS_uppercase else [])
           @ (if includeNumbers ps then CHAR_SETS_numbers else [])
           @ (if includeSymbols ps then CHAR_SETS_symbols else [])"
    by (simp add: collect_classes_available enabled_classes_def)
next
  fix s k' assume gen: "generateSecurePassword rnd ps k = (Inr s, k')"
  have v: "validateSettings ps"
  proof (rule ccontr)
    assume "\<not> validateSettings ps"
    then have "enabled_classes ps = []" using enabled_classes_nonempty_iff by blast
    then have "generateSecurePassword rnd ps k = (Inl InvalidConfiguration, k)"
      by (simp add: generateSecurePassword_def password_array_error)
    with gen show False by simp
  qed
  from generate_summary [OF assms v, of k] gen
  have "set s \<subseteq> set (concat (enabled_classes ps))" by auto
  then show "\<forall>c \<in> set s. \<exists>cls \<in> set (enabled_classes ps). c \<in> set cls" by auto
qed

theorem generate_chars_from_enabled_classes_witness:
  "fst (collect_classes cycle7
       \<lparr>length_ps = 6, includeUppercase = True, includeLowercase = False,
        includeNumbers = True, includeSymbols = False\<rparr> 0) = ''ABCDEFGHIJKLMNOPQRSTUVWXYZ0123456789''
   \<and> generateSecurePassword cycle7
       \<lparr>length_ps = 6, includeUppercase = True, includeLowercase = False,
        includeNumbers = True, includeSymbols = False\<rparr> 0 = (Inr ''1KPUAZ'', 11)
   \<and> set ''1KPUAZ'' \<subseteq> set CHAR_SETS_uppercase \<union> set CHAR_SETS_numbers"
proof -
  let ?ps = "\<lparr>length_ps = 6, includeUppercase = True, includeLowercase = False,
        includeNumbers = True, includeSymbols = False\<rparr>"
  have pa: "password_array cycle7 ?ps 0 = (Inr [''A'', ''1'', ''K'', ''P'', ''U'', ''Z''], 6)"
    by code_simp
  have sh: "shuffleArray cycle7 [''A'', ''1'', ''K'', ''P'', ''U'', ''Z''] 6
      = ([''1'', ''K'', ''P'', ''U'', ''A'', ''Z''], 11)"
    by code_simp
  have g: "generateSecurePassword cycle7 ?ps 0 = (Inr ''1KPUAZ'', 11)"
    by (simp add: generateSecurePassword_def pa sh)
  have E: "enabled_classes ?ps = [CHAR_SETS_uppercase, CHAR_SETS_numbers]"
    by (simp add: enabled_classes_def)
  have "\<forall>c \<in> set ''1KPUAZ''. \<exists>cls \<in> set (enabled_classes ?ps). c \<in> set cls"
    using generate_chars_from_enabled_classes [OF unit_interval_cycle7, of ?ps 0] g by blast
  then have "set ''1KPUAZ'' \<subseteq> set CHAR_SETS_uppercase \<union> set CHAR_SETS_numbers"
    unfolding E by auto
  moreover have "fst (collect_classes cycle7 ?ps 0) = ''ABCDEFGHIJKLMNOPQRSTUVWXYZ0123456789''"
    using generate_chars_from_enabled_classes [OF unit_interval_cycle7, of ?ps 0]
    by (simp add: CHAR_SETS_uppercase_def CHAR_SETS_numbers_def)
  ultimately show ?thesis using g by blast
qed

text \<open>
  C8. For every input string the evaluation returns the score, label and feedback of
  the scoring rule: the length points, one point for each of the four kinds of
  character the string contains, the label of the score, and the length advice exactly
  when the string is shorter than 8. The empty string yields score 0, the weakest label
  and the length advice. The labels of the program are Spanish: \<open>Muy fuerte\<close> (very
  strong), \<open>Fuerte\<close> (strong), \<open>Media\<close> (medium) and \<open>Debil\<close> with an acute accent (weak).
\<close>

theorem evaluate_scoring:
  "evaluatePasswordStrength s
     = \<lparr>strength = spec_label (spec_score s), score = spec_score s, feedback = spec_feedback s\<rparr>
   \<and> evaluatePasswordStrength []
     = \<lparr>strength = Debil, score = 0, feedback = [length_advice]\<rparr>"
proof
  show "evaluatePasswordStrength s
     = \<lparr>strength = spec_label (spec_score s), score = spec_score s, feedback = spec_feedback s\<rparr>"
    using evaluate_score [of s] evaluate_feedback [of s] evaluate_strength [of s]
    by (cases "evaluatePasswordStrength s") simp
  show "evaluatePasswordStrength [] = \<lparr>strength = Debil, score = 0, feedback = [length_advice]\<rparr>"
    by (simp add: evaluatePasswordStrength_def regex_test_def length_advice_def)
qed

theorem evaluate_scoring_witness:
  "evaluatePasswordStrength ''Ab3!Ab3!Ab3!''
     = \<lparr>strength = ''Muy fuerte'', score = 6, feedback = []\<rparr>
   \<and> evaluatePasswordStrength ''abc''
     = \<lparr>strength = [CHR ''D'', CHR 0xE9, CHR ''b'', CHR ''i'', CHR ''l''], score = 1,
        feedback = [''Usar al menos 8 caracteres'']\<rparr>"
proof -
  have a: "spec_score ''Ab3!Ab3!Ab3!'' = 6" "spec_feedback ''Ab3!Ab3!Ab3!'' = []"
      "spec_label 6 = ''Muy fuerte''"
    by code_simp+
  have b: "spec_score ''abc'' = 1" "spec_feedback ''abc'' = [''Usar al menos 8 caracteres'']"
      "spec_label 1 = [CHR ''D'', CHR 0xE9, CHR ''b'', CHR ''i'', CHR ''l'']"
    by code_simp+
  from evaluate_scoring [of "''Ab3!Ab3!Ab3!''"] evaluate_scoring [of "''abc''"]
  show ?thesis by (simp only: a b simp_thms)
qed

text \<open>
  C9. With all four classes enabled and a length of at least 12, the generated password
  evaluates to score 6, the label \<open>Muy fuerte\<close> and no feedback.
\<close>

theorem generated_password_is_very_strong:
  assumes "unit_interval rnd"
    and "includeLowercase ps" "includeUppercase ps" "includeNumbers ps" "includeSymbols ps"
    and "12 \<le> length_ps ps"
  shows "\<exists>s k'. generateSecurePassword rnd ps k = (Inr s, k')
           \<and> evaluatePasswordStrength s = \<lparr>strength = Muy_fuerte, score = 6, feedback = []\<rparr>"
proof -
  have v: "validateSettings ps" using assms(2) by (simp add: validateSettings_def)
  have E: "enabled_classes ps
      = [CHAR_SETS_lowercase, CHAR_SETS_uppercase, CHAR_SETS_numbers, CHAR_SETS_symbols]"
    using assms(2-5) by (simp add: enabled_classes_def)
  from generate_summary [OF assms(1) v, of k] obtain s k' where
    gen: "generateSecurePassword rnd ps k = (Inr s, k')"
    and len: "length s = length (enabled_classes ps) + remaining ps"
    and cov: "\<forall>cls \<in> set (enabled_classes ps). \<exists>c \<in> set s. c \<in> set cls"
    by blast
  have "int (length s) = length_ps ps"
    using len assms(6) by (simp add: E remaining_def)
  then have l12: "12 \<le> length s" using assms(6) by linarith
  have c1: "contains lower_az s"
    using cov lowercase_is_lower unfolding E contains_def by fastforce
  have c2: "contains upper_AZ s"
    using cov uppercase_is_upper unfolding E contains_def by fastforce
  have c3: "contains digit_09 s"
    using cov numbers_is_digit unfolding E contains_def by fastforce
  have c4: "contains not_alnum s"
    using cov symbols_is_not_alnum unfolding E contains_def by fastforce
  from c1 c2 c3 c4 have sc: "spec_score s = 6"
    using l12 by (simp add: spec_score_def length_points_def class_points_def)
  have "evaluatePasswordStrength s
      = \<lparr>strength = spec_label (spec_score s), score = spec_score s, feedback = spec_feedback s\<rparr>"
    using evaluate_score [of s] evaluate_feedback [of s] evaluate_strength [of s]
    by (cases "evaluatePasswordStrength s") simp
  then have "evaluatePasswordStrength s = \<lparr>strength = Muy_fuerte, score = 6, feedback = []\<rparr>"
    using l12 by (simp add: sc spec_label_def spec_feedback_def)
  with gen show ?thesis by blast
qed

theorem generated_password_is_very_strong_witness:
  "\<exists>s k'. generateSecurePassword cycle7
       \<lparr>length_ps = 16, includeUppercase = True, includeLowercase = True,
        includeNumbers = True, includeSymbols = True\<rparr> 0 = (Inr s, k')
     \<and> evaluatePasswordStrength s = \<lparr>strength = ''Muy fuerte'', score = 6, feedback = []\<rparr>"
  using generated_password_is_very_strong [OF unit_interval_cycle7,
    of "\<lparr>length_ps = 16, includeUppercase = True, includeLowercase = True,
        includeNumbers = True, includeSymbols = True\<rparr>" 0]
  by (simp add: Muy_fuerte_def)

text \<open>
  C10. \<open>shuffleArray\<close> does not mutate its argument: it returns the address of a newly
  allocated array, every array of the store it was called with (its argument among
  them) is unchanged, and the new array holds the shuffled elements.
\<close>

theorem shuffleArray_does_not_mutate_argument:
  assumes "array < length h"
  shows "\<exists>shuffled h' k'. shuffleArray_heap rnd array h k = (shuffled, h', k')
           \<and> shuffled = length h
           \<and> length h' = Suc (length h)
           \<and> take (length h) h' = h
           \<and> h' ! array = h ! array
           \<and> h' ! shuffled = fst (shuffleArray rnd (h ! array) k)
           \<and> k' = snd (shuffleArray rnd (h ! array) k)"
proof -
  let ?h1 = "h @ [h ! array]"
  have l: "length h < length ?h1" by simp
  have c: "?h1 ! length h = h ! array" by simp
  have "shuffleArray_heap rnd array h k
      = (length h, h @ [fst (shuffleArray rnd (h ! array) k)], snd (shuffleArray rnd (h ! array) k))"
    unfolding shuffleArray_heap_def copy_array_def
    by (simp only: prod.case shuffle_loop_heap_eq [OF l] c shuffleArray_def) simp
  then show ?thesis using assms by (simp add: nth_append)
qed

theorem shuffleArray_does_not_mutate_argument_witness:
  "shuffleArray_heap cycle7 1 [''xyz'', ''abcde''] 3
     = (2, [''xyz'', ''abcde'', ''abdec''], 7)"
proof -
  let ?h = "[''xyz'', ''abcde'']"
  have a: "(1::nat) < length ?h" by simp
  obtain shuffled h' k' where r: "shuffleArray_heap cycle7 1 ?h 3 = (shuffled, h', k')"
    "shuffled = length ?h" "length h' = Suc (length ?h)" "take (length ?h) h' = ?h"
    "h' ! shuffled = fst (shuffleArray cycle7 (?h ! 1) 3)"
    "k' = snd (shuffleArray cycle7 (?h ! 1) 3)"
    using shuffleArray_does_not_mutate_argument [OF a, of cycle7 3] by blast
  have s: "shuffleArray cycle7 ''abcde'' 3 = (''abdec'', 7)" by code_simp
  have "take (Suc 2) h' = take 2 h' @ [h' ! 2]"
    by (rule take_Suc_conv_app_nth) (simp add: r(3))
  moreover have "take (Suc 2) h' = h'" by (simp add: r(3))
  ultimately have h: "h' = take 2 h' @ [h' ! 2]" by metis
  have l2: "length ?h = 2" by simp
  have t: "take 2 h' = ?h" using r(4) unfolding l2 .
  have sh: "shuffled = 2" using r(2) by simp
  have e: "h' ! 2 = ''abdec''" using r(5) s unfolding sh by simp
  have "h' = [''xyz'', ''abcde'', ''abdec'']" using h unfolding t e by simp
  moreover have "k' = 7" using r(6) s by simp
  ultimately show ?thesis using r(1) sh by simp
qed

end
